theory Spec2Isabelle
  imports Main "HOL-Library.Sublist"
begin

section \<open>Tiles: class Piece of okey\_ilp.py\<close>

text \<open>
  The attribute \<open>type\<close> of a Piece is one of the three strings "okey", "fake\_okey" and
  "piece"; it is a closed enumeration here. Colour and number are optional in the source
  (a joker built without game context has both absent), so both are options.
\<close>

datatype piece_type = Okey | FakeOkey | NormalPiece

record Piece =
  color :: "string option"
  number :: "int option"
  ptype :: piece_type

text \<open>\<open>Piece.__init__(color, number, okey_color, okey_number)\<close>.\<close>

definition Piece_init :: "string \<Rightarrow> int option \<Rightarrow> string option \<Rightarrow> int option \<Rightarrow> Piece" where
  "Piece_init c n ind_color ind_number =
     (let ty = (if c = ''okey'' then Okey
                else if c = ''fake_okey'' then FakeOkey
                else NormalPiece)
      in case ty of
           Okey \<Rightarrow> \<lparr>color = ind_color, number = ind_number, ptype = ty\<rparr>
         | FakeOkey \<Rightarrow>
             \<lparr>color = ind_color,
              number = (case ind_number of Some k \<Rightarrow> Some (k mod 13 + 1) | None \<Rightarrow> None),
              ptype = ty\<rparr>
         | NormalPiece \<Rightarrow> \<lparr>color = Some c, number = n, ptype = ty\<rparr>)"

section \<open>The solver object: OkeyILPSolver.\_\_init\_\_\<close>

text \<open>A raw tile is the dictionary \<open>{"color": str, "number": Optional[int]}\<close>, a pair here.\<close>

type_synonym piece_dict = "string \<times> int option"

record OkeyILPSolver =
  tiles :: "Piece list"
  joker_indices :: "nat list"
  non_joker_indices :: "nat list"

definition OkeyILPSolver_init ::
    "piece_dict list \<Rightarrow> string option \<Rightarrow> int option \<Rightarrow> OkeyILPSolver" where
  "OkeyILPSolver_init ps ind_color ind_number =
     (let ts = map (\<lambda>p. Piece_init (fst p) (snd p) ind_color ind_number) ps
      in \<lparr>tiles = ts,
          joker_indices = [i \<leftarrow> [0..<length ts]. ptype (ts ! i) = Okey],
          non_joker_indices = [i \<leftarrow> [0..<length ts]. ptype (ts ! i) \<noteq> Okey]\<rparr>)"

section \<open>Candidate melds: OkeyILPSolver.\_enumerate\_melds\<close>

text \<open>
  \<open>itertools.combinations(xs, k)\<close>: the \<open>k\<close>-element subsequences of \<open>xs\<close>, in
  lexicographic order of the positions. Every call site passes a non-negative \<open>k\<close>.
\<close>

fun combinations :: "'a list \<Rightarrow> nat \<Rightarrow> 'a list list" where
  "combinations xs 0 = [[]]"
| "combinations [] (Suc k) = []"
| "combinations (x # xs) (Suc k) =
     map ((#) x) (combinations xs k) @ combinations xs (Suc k)"

text \<open>A candidate is the pair (list of tile indices, weight).\<close>

type_synonym meld = "nat list \<times> int"

text \<open>The body of the loop \<open>for num in range(1, 14)\<close> (lines 73 to 82).\<close>

definition set_melds_for :: "OkeyILPSolver \<Rightarrow> int \<Rightarrow> meld list" where
  "set_melds_for st num =
     (let W = length (joker_indices st);
          real_idxs = [i \<leftarrow> non_joker_indices st. number (tiles st ! i) = Some num];
          max_size = min 4 (length real_idxs + W)
      in [(real_comb @ joker_comb, num * int sz).
            sz \<leftarrow> [3 ..< max_size + 1],
            r \<leftarrow> [max 1 (sz - W) ..< min sz (length real_idxs) + 1],
            real_comb \<leftarrow> combinations real_idxs r,
            joker_comb \<leftarrow> combinations (joker_indices st) (sz - r)])"

definition set_melds :: "OkeyILPSolver \<Rightarrow> meld list" where
  "set_melds st = concat (map (set_melds_for st) [1..13])"

text \<open>
  The dictionary comprehension of lines 87 and 88: tiles are visited in index order and a
  later tile with the same number overwrites the entry of an earlier one.
\<close>

definition num_to_idx :: "Piece list \<Rightarrow> string option \<Rightarrow> (int option \<rightharpoonup> nat)" where
  "num_to_idx ts c =
     fold (\<lambda>(i, t) m. if ptype t \<noteq> Okey \<and> color t = c then m(number t \<mapsto> i) else m)
          (enumerate 0 ts) Map.empty"

text \<open>The body of the loop over \<open>start\<close> (lines 91 to 98), for one window.\<close>

definition run_melds_window ::
    "OkeyILPSolver \<Rightarrow> (int option \<rightharpoonup> nat) \<Rightarrow> nat \<Rightarrow> nat \<Rightarrow> meld list" where
  "run_melds_window st n2i len start =
     (let W = length (joker_indices st);
          run_nums = map int [start ..< start + len];
          real_idxs = List.map_filter (\<lambda>n. n2i (Some n)) run_nums;
          missing = len - length real_idxs
      in if missing \<le> W \<and> length real_idxs \<ge> 1
         then [(sort (real_idxs @ joker_comb), sum_list run_nums).
                 joker_comb \<leftarrow> combinations (joker_indices st) missing]
         else [])"

definition run_melds_color :: "OkeyILPSolver \<Rightarrow> string option \<Rightarrow> meld list" where
  "run_melds_color st c =
     [m. len \<leftarrow> [3 ..< 14], start \<leftarrow> [1 ..< 14 - len + 1],
         m \<leftarrow> run_melds_window st (num_to_idx (tiles st) c) len start]"

text \<open>
  \<open>colors\<close> is a Python set; the language does not fix the order in which the loop of
  line 86 visits it. The order of first occurrence in the hand is taken here. It only
  decides the order of the run candidates in the list; every statement below is about
  membership in the list or holds for any list of candidates.
\<close>

definition colors :: "OkeyILPSolver \<Rightarrow> string option list" where
  "colors st = remdups (map color [t \<leftarrow> tiles st. ptype t \<noteq> Okey])"

definition run_melds :: "OkeyILPSolver \<Rightarrow> meld list" where
  "run_melds st = concat (map (run_melds_color st) (colors st))"

definition enumerate_melds :: "OkeyILPSolver \<Rightarrow> meld list" where
  "enumerate_melds st = set_melds st @ run_melds st"

section \<open>The 0/1 program and its external optimizer: OkeyILPSolver.solve\<close>

text \<open>
  Lines 104 to 117 build a program with one binary variable \<open>x_i\<close> per candidate, the
  objective \<open>\<Sum> melds[i][1] * x[i]\<close> and, for each tile index, the constraint that the
  variables of the candidates holding that index sum to at most 1. An assignment gives
  each variable its value.
\<close>

type_synonym assignment = "nat \<Rightarrow> int"

definition objective :: "meld list \<Rightarrow> assignment \<Rightarrow> int" where
  "objective melds v = (\<Sum>i \<leftarrow> [0 ..< length melds]. snd (melds ! i) * v i)"

definition tile_once :: "meld list \<Rightarrow> assignment \<Rightarrow> nat \<Rightarrow> bool" where
  "tile_once melds v tile_idx =
     ((\<Sum>i \<leftarrow> [i \<leftarrow> [0 ..< length melds]. tile_idx \<in> set (fst (melds ! i))]. v i) \<le> 1)"

definition feasible :: "meld list \<Rightarrow> nat \<Rightarrow> assignment \<Rightarrow> bool" where
  "feasible melds ntiles v \<longleftrightarrow>
     (\<forall>i < length melds. v i = 0 \<or> v i = 1) \<and>
     (\<forall>tile_idx < ntiles. tile_once melds v tile_idx)"

text \<open>What an exact optimizer returns: a feasible assignment that no feasible one beats.\<close>

definition optimal :: "meld list \<Rightarrow> nat \<Rightarrow> assignment \<Rightarrow> bool" where
  "optimal melds ntiles v \<longleftrightarrow>
     feasible melds ntiles v \<and>
     (\<forall>v'. feasible melds ntiles v' \<longrightarrow> objective melds v' \<le> objective melds v)"

text \<open>
  The optimizer (PuLP with CBC, line 120) is not part of the repository: it is a
  parameter. Given the candidates and the number of tiles it either raises (\<open>Inl\<close>, with
  the message of the exception) or returns the values of the variables.
\<close>

type_synonym optimizer = "meld list \<Rightarrow> nat \<Rightarrow> string + assignment"

text \<open>Lines 124 to 126: the candidates whose variable has the value 1, in list order.\<close>

definition selected :: "meld list \<Rightarrow> assignment \<Rightarrow> meld list" where
  "selected melds v = [melds ! i. i \<leftarrow> [0 ..< length melds], v i = 1]"

text \<open>Lines 127 and 128: each index list is mapped to the tiles it names.\<close>

definition extract_solution :: "OkeyILPSolver \<Rightarrow> meld list \<Rightarrow> (Piece list \<times> int) list" where
  "extract_solution st ms = [(map (\<lambda>idx. tiles st ! idx) (fst m), snd m). m \<leftarrow> ms]"

definition solve :: "optimizer \<Rightarrow> OkeyILPSolver \<Rightarrow> string + (Piece list \<times> int) list" where
  "solve opt st =
     (let melds = enumerate_melds st
      in case opt melds (length (tiles st)) of
           Inl e \<Rightarrow> Inl e
         | Inr v \<Rightarrow> Inr (extract_solution st (selected melds v)))"

section \<open>The request handler: solve\_okey\_hand of api.py\<close>

text \<open>Python's \<open>str\<close> of an integer, as the f-string of line 68 formats the number.\<close>

fun str_nat :: "nat \<Rightarrow> string" where
  "str_nat n =
     (if n < 10 then [char_of (48 + n)]
      else str_nat (n div 10) @ [char_of (48 + n mod 10)])"

declare str_nat.simps [simp del]

definition str_int :: "int \<Rightarrow> string" where
  "str_int i = (if i < 0 then ''-'' @ str_nat (nat (- i)) else str_nat (nat i))"

text \<open>An absent colour or number is formatted as the text None.\<close>

definition fmt_color :: "string option \<Rightarrow> string" where
  "fmt_color c = (case c of None \<Rightarrow> ''None'' | Some s \<Rightarrow> s)"

definition fmt_number :: "int option \<Rightarrow> string" where
  "fmt_number n = (case n of None \<Rightarrow> ''None'' | Some k \<Rightarrow> str_int k)"

text \<open>Lines 65 to 68 of api.py.\<close>

definition piece_str :: "Piece \<Rightarrow> string" where
  "piece_str p =
     (if ptype p = Okey then ''JOKER''
      else fmt_color (color p) @ '' '' @ fmt_number (number p))"

record OkeyRequest =
  pieces :: "piece_dict list"
  okey_color :: string
  okey_number :: int

record MeldResponse =
  meld_pieces :: "string list"
  meld_value :: int

text \<open>The field \<open>execution_time\<close> is a wall-clock measurement and is left out.\<close>

record OkeyResponse =
  melds :: "MeldResponse list"
  total_score :: int
  can_open :: bool
  number_of_triples :: int
  number_of_sides :: int

text \<open>
  What the caller receives instead of a response: the \<open>HTTPException\<close> the handler
  raises (line 93), or the framework's answer to a body that does not fit the declared
  request model, which has status 422.
\<close>

datatype http_error = HTTPException nat string | RequestValidationError

fun status_code :: "http_error \<Rightarrow> nat" where
  "status_code (HTTPException code detail) = code"
| "status_code RequestValidationError = 422"

text \<open>The loop of lines 61 to 76: it appends one MeldResponse and adds the weight.\<close>

definition process_melds :: "(Piece list \<times> int) list \<Rightarrow> MeldResponse list \<times> int" where
  "process_melds sol =
     fold (\<lambda>(piece_objects, w) (processed, total).
             (processed @ [\<lparr>meld_pieces = map piece_str piece_objects, meld_value = w\<rparr>],
              total + w))
          sol ([], 0)"

definition solve_okey_hand :: "optimizer \<Rightarrow> OkeyRequest \<Rightarrow> http_error + OkeyResponse" where
  "solve_okey_hand opt request =
     (let solver = OkeyILPSolver_init (pieces request)
                     (Some (okey_color request)) (Some (okey_number request))
      in case solve opt solver of
           Inl e \<Rightarrow> Inl (HTTPException 500 e)
         | Inr optimal_melds \<Rightarrow>
             (let (processed, total) = process_melds optimal_melds
              in Inr \<lparr>melds = processed,
                      total_score = total,
                      can_open = (total \<ge> 101),
                      number_of_triples = total div 3,
                      number_of_sides = total mod 3\<rparr>))"

text \<open>
  The route of line 34 declares its body as an \<open>OkeyRequest\<close>, whose fields
  \<open>okey_color\<close> and \<open>okey_number\<close> (lines 19 and 20) have no default. FastAPI parses the
  body against that model before it calls the handler: when one of the two fields is
  absent it answers with status 422 and the handler does not run. This step of the
  framework is modelled for the presence of the indicator only; the tile descriptors are
  taken as already typed (a string and an optional integer).
\<close>

record request_body =
  body_pieces :: "piece_dict list"
  body_okey_color :: "string option"
  body_okey_number :: "int option"

definition parse_body :: "request_body \<Rightarrow> http_error + OkeyRequest" where
  "parse_body body =
     (case body_okey_color body of
        None \<Rightarrow> Inl RequestValidationError
      | Some c \<Rightarrow>
          (case body_okey_number body of
             None \<Rightarrow> Inl RequestValidationError
           | Some r \<Rightarrow> Inr \<lparr>pieces = body_pieces body, okey_color = c, okey_number = r\<rparr>))"

definition post_solve :: "optimizer \<Rightarrow> request_body \<Rightarrow> http_error + OkeyResponse" where
  "post_solve opt body =
     (case parse_body body of
        Inl err \<Rightarrow> Inl err
      | Inr request \<Rightarrow> solve_okey_hand opt request)"

section \<open>Notions the statements use\<close>

text \<open>The sum of the weights of a list of melds.\<close>

definition weight_sum :: "('a \<times> int) list \<Rightarrow> int" where
  "weight_sum ms = sum_list (map snd ms)"

text \<open>A packing: no tile index lies in two melds of the list.\<close>

definition index_disjoint :: "meld \<Rightarrow> meld \<Rightarrow> bool" where
  "index_disjoint a b \<longleftrightarrow> (\<forall>i \<in> set (fst a). i \<notin> set (fst b))"

definition packing :: "meld list \<Rightarrow> bool" where
  "packing ms = sorted_wrt index_disjoint ms"

text \<open>
  The best total weight of a packing taken from the candidates: every sub-collection of
  the candidate list is a subsequence of it.
\<close>

definition best_packing :: "meld list \<Rightarrow> int" where
  "best_packing cands = Max (set (map weight_sum (filter packing (subseqs cands))))"

text \<open>
  What \<open>__init__\<close> establishes and nothing changes afterwards: the two index lists are
  the positions of the jokers and of the other tiles, in increasing order.
\<close>

definition solver_inv :: "OkeyILPSolver \<Rightarrow> bool" where
  "solver_inv st \<longleftrightarrow>
     joker_indices st = [i \<leftarrow> [0 ..< length (tiles st)]. ptype (tiles st ! i) = Okey] \<and>
     non_joker_indices st = [i \<leftarrow> [0 ..< length (tiles st)]. ptype (tiles st ! i) \<noteq> Okey]"

text \<open>The number of joker tiles of the hand.\<close>

definition joker_count :: "OkeyILPSolver \<Rightarrow> nat" where
  "joker_count st = length [t \<leftarrow> tiles st. ptype t = Okey]"

text \<open>The jokers a list of melds consumes: each joker member of each meld counts.\<close>

definition jokers_used :: "OkeyILPSolver \<Rightarrow> meld list \<Rightarrow> nat" where
  "jokers_used st ms = (\<Sum>m \<leftarrow> ms. length [i \<leftarrow> fst m. ptype (tiles st ! i) = Okey])"




text \<open>
  The display token of the tile at index \<open>i\<close> of a request, in terms of the raw
  descriptor and the indicator: the fixed marker for a Joker, the indicator's colour and
  the rank after the indicator's for a FakeJoker, colour and rank for any other tile.
\<close>

definition display_token :: "OkeyRequest \<Rightarrow> nat \<Rightarrow> string" where
  "display_token req i =
     (let c = fst (pieces req ! i); n = snd (pieces req ! i)
      in if c = ''okey'' then ''JOKER''
         else if c = ''fake_okey''
           then okey_color req @ '' '' @ str_int (okey_number req mod 13 + 1)
         else c @ '' '' @ fmt_number n)"

text \<open>
  Optimizers for the examples: one that returns a given assignment, one that raises; and
  the assignment that gives the value 1 to the listed variables and 0 to the others.
\<close>

definition pick :: "nat list \<Rightarrow> assignment" where
  "pick chosen i = (if i \<in> set chosen then 1 else 0)"

definition returning :: "assignment \<Rightarrow> optimizer" where
  "returning v cands ntiles = Inr v"

definition raising :: "string \<Rightarrow> optimizer" where
  "raising e cands ntiles = Inl e"

section \<open>Tile resolution\<close>

lemma tiles_init:
  "tiles (OkeyILPSolver_init ps oc on) = map (\<lambda>p. Piece_init (fst p) (snd p) oc on) ps"
  by (simp add: OkeyILPSolver_init_def Let_def)

text \<open>
  C5. For every raw tile list and indicator (colour c, rank r), tile resolution keeps the
  length and the order of the input: the tile at index i is built from the raw tile at
  index i. A normal tile keeps its colour and rank, a Joker marker gets colour c and rank
  r, a FakeJoker marker gets colour c and rank (r mod 13) + 1.
\<close>

theorem tile_resolution:
  "length (tiles (OkeyILPSolver_init ps (Some c) (Some r))) = length ps \<and>
   (\<forall>i < length ps.
      tiles (OkeyILPSolver_init ps (Some c) (Some r)) ! i =
        (if fst (ps ! i) = ''okey''
           then \<lparr>color = Some c, number = Some r, ptype = Okey\<rparr>
         else if fst (ps ! i) = ''fake_okey''
           then \<lparr>color = Some c, number = Some (r mod 13 + 1), ptype = FakeOkey\<rparr>
         else \<lparr>color = Some (fst (ps ! i)), number = snd (ps ! i), ptype = NormalPiece\<rparr>))"
  by (simp add: tiles_init Piece_init_def)

theorem tile_resolution_witness:
  "tiles (OkeyILPSolver_init [(''red'', Some 7), (''okey'', None), (''fake_okey'', None)]
            (Some ''blue'') (Some 13)) ! 2
     = \<lparr>color = Some ''blue'', number = Some 1, ptype = FakeOkey\<rparr>"
  using tile_resolution [of "[(''red'', Some 7), (''okey'', None), (''fake_okey'', None)]"
                            "''blue''" 13]
  by simp

section \<open>Selecting candidates and the 0/1 program\<close>

lemma concat_if_filter:
  "concat (map (\<lambda>i. if P i then [f i] else []) xs) = map f (filter P xs)"
  by (induction xs) simp_all

lemma selected_filter:
  "selected cands v = map ((!) cands) (filter (\<lambda>i. v i = 1) [0 ..< length cands])"
  by (simp add: selected_def concat_if_filter)

lemma nths_as_filter:
  "nths xs I = map ((!) xs) (filter (\<lambda>i. i \<in> I) [0 ..< length xs])"
proof (induction xs rule: rev_induct)
  case Nil
  show ?case by simp
next
  case (snoc x xs)
  have "map ((!) (xs @ [x])) (filter (\<lambda>i. i \<in> I) [0 ..< length xs])
        = map ((!) xs) (filter (\<lambda>i. i \<in> I) [0 ..< length xs])"
    by (rule map_cong) (auto simp: nth_append)
  with snoc show ?case
    by (simp add: nths_append)
qed

lemma selected_nths: "selected cands v = nths cands {i. v i = 1}"
  by (simp add: selected_filter nths_as_filter)

lemma selected_subseq: "subseq (selected cands v) cands"
  unfolding selected_nths subseq_conv_nths by blast

lemma sum_list_binary:
  "(\<forall>i \<in> set xs. v i = 0 \<or> v i = (1::int)) \<Longrightarrow>
   (\<Sum>i \<leftarrow> xs. w i * v i) = (\<Sum>i \<leftarrow> filter (\<lambda>i. v i = 1) xs. w i)"
  by (induction xs) auto

lemma objective_selected:
  assumes "\<forall>i < length cands. v i = 0 \<or> v i = 1"
  shows "objective cands v = weight_sum (selected cands v)"
proof -
  have "\<forall>i \<in> set [0 ..< length cands]. v i = 0 \<or> v i = 1"
    using assms by simp
  from sum_list_binary [OF this, of "\<lambda>i. snd (cands ! i)"]
  show ?thesis
    by (simp add: objective_def weight_sum_def selected_filter comp_def)
qed

lemma two_le_sum_list:
  assumes "distinct xs" "i \<in> set xs" "j \<in> set xs" "i \<noteq> j"
    and "\<forall>k \<in> set xs. 0 \<le> f k"
  shows "f i + f j \<le> (\<Sum>k \<leftarrow> xs. (f k :: int))"
proof -
  have "(\<Sum>k \<leftarrow> xs. f k) = sum f (set xs)"
    using assms(1) by (simp add: sum_list_distinct_conv_sum_set)
  moreover have "sum f {i, j} \<le> sum f (set xs)"
    using assms by (intro sum_mono2) auto
  ultimately show ?thesis using assms(4) by simp
qed

lemma feasible_disjoint:
  assumes feas: "feasible cands n v"
    and range: "\<forall>m \<in> set cands. \<forall>t \<in> set (fst m). t < n"
    and ij: "i < length cands" "j < length cands" "i \<noteq> j" "v i = 1" "v j = 1"
  shows "index_disjoint (cands ! i) (cands ! j)"
proof (rule ccontr)
  assume "\<not> index_disjoint (cands ! i) (cands ! j)"
  then obtain t where t: "t \<in> set (fst (cands ! i))" "t \<in> set (fst (cands ! j))"
    by (auto simp: index_disjoint_def)
  have "t < n" using range ij(1) t(1) by (meson nth_mem)
  then have once: "tile_once cands v t" using feas by (simp add: feasible_def)
  let ?xs = "[k \<leftarrow> [0 ..< length cands]. t \<in> set (fst (cands ! k))]"
  have "v i + v j \<le> (\<Sum>k \<leftarrow> ?xs. v k)"
  proof (rule two_le_sum_list)
    show "\<forall>k \<in> set ?xs. 0 \<le> v k"
      using feas by (auto simp: feasible_def)
  qed (use ij t in auto)
  then show False using once ij by (simp add: tile_once_def)
qed

lemma sorted_wrt_strict_pairs:
  "sorted_wrt (<) (xs :: nat list) \<Longrightarrow>
   (\<forall>i \<in> set xs. \<forall>j \<in> set xs. i < j \<longrightarrow> R i j) \<Longrightarrow> sorted_wrt R xs"
  by (induction xs) auto

lemma feasible_packing:
  assumes feas: "feasible cands n v"
    and range: "\<forall>m \<in> set cands. \<forall>t \<in> set (fst m). t < n"
  shows "packing (selected cands v)"
proof -
  have "sorted_wrt (\<lambda>i j. index_disjoint (cands ! i) (cands ! j))
          (filter (\<lambda>i. v i = 1) [0 ..< length cands])"
    by (rule sorted_wrt_strict_pairs)
       (use feasible_disjoint [OF feas range] in \<open>auto simp: sorted_wrt_filter\<close>)
  then show ?thesis
    by (simp add: packing_def selected_filter sorted_wrt_map)
qed

lemma sum_list_at_most_one:
  assumes "distinct xs"
    and "\<forall>i \<in> set xs. f i = 0 \<or> f i = (1::int)"
    and "\<forall>i \<in> set xs. \<forall>j \<in> set xs. f i = 1 \<and> f j = 1 \<longrightarrow> i = j"
  shows "(\<Sum>i \<leftarrow> xs. f i) \<le> 1"
  using assms
proof (induction xs)
  case Nil
  show ?case by simp
next
  case (Cons x xs)
  show ?case
  proof (cases "f x = 1")
    case True
    with Cons.prems have "\<forall>i \<in> set xs. f i = 0" by auto
    then have "(\<Sum>i \<leftarrow> xs. f i) = 0" by (induction xs) auto
    with True show ?thesis by simp
  next
    case False
    with Cons show ?thesis by auto
  qed
qed

lemma sorted_wrt_pairs_sym:
  assumes "sorted_wrt R xs" "sorted_wrt (<) (xs :: nat list)"
    and "\<And>a b. R a b \<Longrightarrow> R b a"
    and "i \<in> set xs" "j \<in> set xs" "i \<noteq> j"
  shows "R i j"
  using assms by (induction xs) auto

lemma index_disjoint_sym: "index_disjoint a b \<Longrightarrow> index_disjoint b a"
  by (auto simp: index_disjoint_def)

lemma packing_feasible:
  assumes pack: "packing (nths cands N)"
  shows "feasible cands n (\<lambda>i. if i \<in> N then 1 else 0)"
proof -
  let ?v = "\<lambda>i. if i \<in> N then 1 else (0::int)"
  let ?sel = "filter (\<lambda>i. i \<in> N) [0 ..< length cands]"
  have sw: "sorted_wrt (\<lambda>i j. index_disjoint (cands ! i) (cands ! j)) ?sel"
    using pack by (simp add: packing_def nths_as_filter sorted_wrt_map)
  have strict: "sorted_wrt (<) ?sel" by (simp add: sorted_wrt_filter)
  have disj: "index_disjoint (cands ! i) (cands ! j)"
    if "i \<in> N" "j \<in> N" "i < length cands" "j < length cands" "i \<noteq> j" for i j
    by (rule sorted_wrt_pairs_sym [OF sw strict])
       (use that in \<open>auto intro: index_disjoint_sym\<close>)
  have "tile_once cands ?v t" for t
    unfolding tile_once_def
  proof (rule sum_list_at_most_one)
    show "\<forall>i\<in>set [k \<leftarrow> [0 ..< length cands]. t \<in> set (fst (cands ! k))].
            \<forall>j\<in>set [k \<leftarrow> [0 ..< length cands]. t \<in> set (fst (cands ! k))].
              ?v i = 1 \<and> ?v j = 1 \<longrightarrow> i = j"
    proof (intro ballI impI)
      fix i j
      assume i: "i \<in> set [k \<leftarrow> [0 ..< length cands]. t \<in> set (fst (cands ! k))]"
        and j: "j \<in> set [k \<leftarrow> [0 ..< length cands]. t \<in> set (fst (cands ! k))]"
        and one: "?v i = 1 \<and> ?v j = 1"
      show "i = j"
      proof (rule ccontr)
        assume "i \<noteq> j"
        moreover from one have "i \<in> N" "j \<in> N" by (auto split: if_splits)
        ultimately have "index_disjoint (cands ! i) (cands ! j)"
          using i j disj by simp
        with i j show False by (auto simp: index_disjoint_def)
      qed
    qed
  qed auto
  then show ?thesis by (simp add: feasible_def)
qed

lemma selected_indicator:
  "selected cands (\<lambda>i. if i \<in> N then 1 else 0) = nths cands N"
  by (simp add: selected_nths)

lemma optimal_best_packing:
  assumes opt: "optimal cands n v"
    and range: "\<forall>m \<in> set cands. \<forall>t \<in> set (fst m). t < n"
  shows "weight_sum (selected cands v) = best_packing cands"
  unfolding best_packing_def
proof (rule Max_eqI [symmetric])
  show "finite (set (map weight_sum (filter packing (subseqs cands))))" by (rule finite_set)
next
  have feas: "feasible cands n v" using opt by (simp add: optimal_def)
  from feasible_packing [OF feas range] selected_subseq [of cands v]
  show "weight_sum (selected cands v) \<in> set (map weight_sum (filter packing (subseqs cands)))"
    by auto
next
  fix y
  assume "y \<in> set (map weight_sum (filter packing (subseqs cands)))"
  then obtain ms where ms: "subseq ms cands" "packing ms" "y = weight_sum ms"
    by auto
  from ms(1) obtain N where N: "ms = nths cands N"
    by (auto simp: subseq_conv_nths)
  let ?v = "\<lambda>i. if i \<in> N then 1 else (0::int)"
  have feas': "feasible cands n ?v"
    using packing_feasible ms(2) N by simp
  then have "objective cands ?v \<le> objective cands v"
    using opt by (simp add: optimal_def)
  moreover have "objective cands ?v = weight_sum ms"
    using objective_selected [of cands ?v] N by (simp add: selected_indicator)
  moreover have "objective cands v = weight_sum (selected cands v)"
    using opt by (intro objective_selected) (simp add: optimal_def feasible_def)
  ultimately show "y \<le> weight_sum (selected cands v)"
    using ms(3) by simp
qed

section \<open>Shape of the enumerated candidates\<close>

lemma combinations_subseq:
  "ys \<in> set (combinations xs k) \<Longrightarrow> subseq ys xs \<and> length ys = k"
  by (induction xs k arbitrary: ys rule: combinations.induct) auto


lemma subseq_set: "subseq ys xs \<Longrightarrow> set ys \<subseteq> set xs"
  by (auto elim: list_emb_set)

lemma subseq_sorted_wrt: "subseq ys xs \<Longrightarrow> sorted_wrt R xs \<Longrightarrow> sorted_wrt R ys"
proof (induction rule: list_emb.induct)
  case (list_emb_Cons2 x y xs ys)
  then have "set xs \<subseteq> set ys" by (intro subseq_set)
  with list_emb_Cons2 show ?case by auto
qed auto

lemma joker_indices_init:
  "joker_indices (OkeyILPSolver_init ps oc on) =
     [i \<leftarrow> [0 ..< length ps]. ptype (tiles (OkeyILPSolver_init ps oc on) ! i) = Okey]"
  by (simp add: OkeyILPSolver_init_def Let_def)

lemma non_joker_indices_init:
  "non_joker_indices (OkeyILPSolver_init ps oc on) =
     [i \<leftarrow> [0 ..< length ps]. ptype (tiles (OkeyILPSolver_init ps oc on) ! i) \<noteq> Okey]"
  by (simp add: OkeyILPSolver_init_def Let_def)

lemma length_tiles_init: "length (tiles (OkeyILPSolver_init ps oc on)) = length ps"
  by (simp add: tiles_init)

lemma strict_upt_filter: "sorted_wrt (<) (filter P [0 ..< n])"
  by (simp add: sorted_wrt_filter)

lemma num_to_idx_Nil: "num_to_idx [] c = Map.empty"
  by (simp add: num_to_idx_def)

lemma num_to_idx_snoc:
  "num_to_idx (ts @ [t]) c =
     (if ptype t \<noteq> Okey \<and> color t = c then (num_to_idx ts c)(number t \<mapsto> length ts)
      else num_to_idx ts c)"
  by (simp add: num_to_idx_def enumerate_append_eq)

lemma num_to_idx_snoc_key:
  "num_to_idx (ts @ [t]) c k =
     (if ptype t \<noteq> Okey \<and> color t = c \<and> number t = k then Some (length ts)
      else num_to_idx ts c k)"
  by (simp add: num_to_idx_snoc)

lemma last_match_snoc:
  "(i < length (xs @ [x]) \<and> P ((xs @ [x]) ! i) \<and>
      (\<forall>j. i < j \<and> j < length (xs @ [x]) \<longrightarrow> \<not> P ((xs @ [x]) ! j)))
   \<longleftrightarrow> (if P x then i = length xs
        else i < length xs \<and> P (xs ! i) \<and> (\<forall>j. i < j \<and> j < length xs \<longrightarrow> \<not> P (xs ! j)))"
proof (cases "P x")
  case True
  show ?thesis
  proof
    assume L: "i < length (xs @ [x]) \<and> P ((xs @ [x]) ! i) \<and>
      (\<forall>j. i < j \<and> j < length (xs @ [x]) \<longrightarrow> \<not> P ((xs @ [x]) ! j))"
    have "\<not> i < length xs"
    proof
      assume "i < length xs"
      with L have "\<not> P ((xs @ [x]) ! length xs)" by (auto simp del: nth_append_length)
      with True show False by simp
    qed
    with L True show "if P x then i = length xs
        else i < length xs \<and> P (xs ! i) \<and> (\<forall>j. i < j \<and> j < length xs \<longrightarrow> \<not> P (xs ! j))"
      by simp
  next
    assume "if P x then i = length xs
        else i < length xs \<and> P (xs ! i) \<and> (\<forall>j. i < j \<and> j < length xs \<longrightarrow> \<not> P (xs ! j))"
    with True show "i < length (xs @ [x]) \<and> P ((xs @ [x]) ! i) \<and>
      (\<forall>j. i < j \<and> j < length (xs @ [x]) \<longrightarrow> \<not> P ((xs @ [x]) ! j))"
      by auto
  qed
next
  case False
  have nth: "P ((xs @ [x]) ! j) \<longleftrightarrow> j < length xs \<and> P (xs ! j)" if "j < Suc (length xs)" for j
    using that False by (cases "j < length xs") (simp_all add: nth_append less_Suc_eq)
  have A: "(i < length (xs @ [x]) \<and> P ((xs @ [x]) ! i)) \<longleftrightarrow> (i < length xs \<and> P (xs ! i))"
    by (cases "i < Suc (length xs)") (use nth [of i] in auto)
  have B: "(\<forall>j. i < j \<and> j < length (xs @ [x]) \<longrightarrow> \<not> P ((xs @ [x]) ! j))
        \<longleftrightarrow> (\<forall>j. i < j \<and> j < length xs \<longrightarrow> \<not> P (xs ! j))"
    using nth by (metis length_append_singleton less_Suc_eq)
  have "(i < length (xs @ [x]) \<and> P ((xs @ [x]) ! i) \<and>
      (\<forall>j. i < j \<and> j < length (xs @ [x]) \<longrightarrow> \<not> P ((xs @ [x]) ! j)))
      \<longleftrightarrow> (i < length xs \<and> P (xs ! i) \<and> (\<forall>j. i < j \<and> j < length xs \<longrightarrow> \<not> P (xs ! j)))"
    using A B by blast
  with False show ?thesis by (simp only: if_False)
qed

lemma num_to_idx_Some_iff:
  "num_to_idx ts c k = Some i \<longleftrightarrow>
     i < length ts \<and> (ptype (ts ! i) \<noteq> Okey \<and> color (ts ! i) = c \<and> number (ts ! i) = k) \<and>
     (\<forall>j. i < j \<and> j < length ts \<longrightarrow>
          \<not> (ptype (ts ! j) \<noteq> Okey \<and> color (ts ! j) = c \<and> number (ts ! j) = k))"
proof (induction ts rule: rev_induct)
  case Nil
  show ?case by (simp add: num_to_idx_Nil)
next
  case (snoc t ts)
  show ?case
    unfolding last_match_snoc [of i ts t "\<lambda>t. ptype t \<noteq> Okey \<and> color t = c \<and> number t = k"]
      num_to_idx_snoc_key
    using snoc by (simp only: split: if_splits) auto
qed


lemma in_concat_map: "x \<in> set (concat (map f xs)) \<Longrightarrow> \<exists>y \<in> set xs. x \<in> set (f y)"
  by auto

lemma set_melds_forD:
  assumes "(idxs, w) \<in> set (set_melds_for st num)"
  shows "\<exists>sz rc jc. (sz = 3 \<or> sz = 4) \<and> idxs = rc @ jc \<and> w = num * int sz \<and>
           length idxs = sz \<and> rc \<noteq> [] \<and>
           subseq rc [i \<leftarrow> non_joker_indices st. number (tiles st ! i) = Some num] \<and>
           subseq jc (joker_indices st)"
proof -
  define W where "W = length (joker_indices st)"
  define real where "real = [i \<leftarrow> non_joker_indices st. number (tiles st ! i) = Some num]"
  define mx where "mx = min 4 (length real + W)"
  from assms have
    "(idxs, w) \<in> set (concat (map (\<lambda>sz. concat (map (\<lambda>r. concat (map (\<lambda>rc.
        map (\<lambda>jc. (rc @ jc, num * int sz)) (combinations (joker_indices st) (sz - r)))
        (combinations real r))) [max 1 (sz - W) ..< min sz (length real) + 1]))
        [3 ..< mx + 1]))"
    by (simp only: set_melds_for_def Let_def W_def real_def mx_def)
  then obtain sz where sz: "sz \<in> set [3 ..< mx + 1]"
    and 1: "(idxs, w) \<in> set (concat (map (\<lambda>r. concat (map (\<lambda>rc.
        map (\<lambda>jc. (rc @ jc, num * int sz)) (combinations (joker_indices st) (sz - r)))
        (combinations real r))) [max 1 (sz - W) ..< min sz (length real) + 1]))"
    by (blast dest: in_concat_map)
  from 1 obtain r where r: "r \<in> set [max 1 (sz - W) ..< min sz (length real) + 1]"
    and 2: "(idxs, w) \<in> set (concat (map (\<lambda>rc.
        map (\<lambda>jc. (rc @ jc, num * int sz)) (combinations (joker_indices st) (sz - r)))
        (combinations real r)))"
    by (blast dest: in_concat_map)
  from 2 obtain rc where rc: "rc \<in> set (combinations real r)"
    and 3: "(idxs, w) \<in> set (map (\<lambda>jc. (rc @ jc, num * int sz))
                (combinations (joker_indices st) (sz - r)))"
    by (blast dest: in_concat_map)
  from 3 obtain jc where jc: "jc \<in> set (combinations (joker_indices st) (sz - r))"
    and eq: "idxs = rc @ jc" "w = num * int sz"
    by auto
  have szb: "sz = 3 \<or> sz = 4" using sz by (auto simp: mx_def)
  have rb: "1 \<le> r" "r \<le> sz" using r by auto
  from combinations_subseq [OF rc] combinations_subseq [OF jc] szb rb eq
  show ?thesis
    unfolding real_def
    by (intro exI [of _ sz] exI [of _ rc] exI [of _ jc]) auto
qed

lemma solver_inv_init: "solver_inv (OkeyILPSolver_init ps oc on)"
  by (simp add: solver_inv_def OkeyILPSolver_init_def Let_def)

lemma joker_indices_iff:
  "solver_inv st \<Longrightarrow>
   i \<in> set (joker_indices st) \<longleftrightarrow> i < length (tiles st) \<and> ptype (tiles st ! i) = Okey"
  by (auto simp: solver_inv_def)

lemma non_joker_indices_iff:
  "solver_inv st \<Longrightarrow>
   i \<in> set (non_joker_indices st) \<longleftrightarrow> i < length (tiles st) \<and> ptype (tiles st ! i) \<noteq> Okey"
  by (auto simp: solver_inv_def)

lemma joker_indices_strict: "solver_inv st \<Longrightarrow> sorted_wrt (<) (joker_indices st)"
  by (simp add: solver_inv_def strict_upt_filter)

lemma non_joker_indices_strict: "solver_inv st \<Longrightarrow> sorted_wrt (<) (non_joker_indices st)"
  by (simp add: solver_inv_def strict_upt_filter)

lemma set_melds_shape:
  assumes inv: "solver_inv st" and m: "(idxs, w) \<in> set (set_melds st)"
  shows "\<exists>num rc jc. idxs = rc @ jc \<and> rc \<noteq> [] \<and>
           (length idxs = 3 \<or> length idxs = 4) \<and> w = num * int (length idxs) \<and>
           sorted_wrt (<) rc \<and> sorted_wrt (<) jc \<and>
           (\<forall>i \<in> set rc. i < length (tiles st) \<and> ptype (tiles st ! i) \<noteq> Okey \<and>
                          number (tiles st ! i) = Some num) \<and>
           (\<forall>i \<in> set jc. i < length (tiles st) \<and> ptype (tiles st ! i) = Okey)"
proof -
  from m obtain num where "(idxs, w) \<in> set (set_melds_for st num)"
    unfolding set_melds_def by (blast dest: in_concat_map)
  from set_melds_forD [OF this] obtain sz rc jc where
    sz: "sz = 3 \<or> sz = 4" and eq: "idxs = rc @ jc" "w = num * int sz" "length idxs = sz"
    and ne: "rc \<noteq> []"
    and rc: "subseq rc [i \<leftarrow> non_joker_indices st. number (tiles st ! i) = Some num]"
    and jc: "subseq jc (joker_indices st)"
    by blast
  have "sorted_wrt (<) [i \<leftarrow> non_joker_indices st. number (tiles st ! i) = Some num]"
    using non_joker_indices_strict [OF inv] by (simp add: sorted_wrt_filter)
  then have s1: "sorted_wrt (<) rc" using rc by (rule subseq_sorted_wrt [rotated])
  have s2: "sorted_wrt (<) jc"
    using jc joker_indices_strict [OF inv] by (rule subseq_sorted_wrt)
  have r1: "\<forall>i \<in> set rc. i < length (tiles st) \<and> ptype (tiles st ! i) \<noteq> Okey \<and>
                          number (tiles st ! i) = Some num"
    using subseq_set [OF rc] non_joker_indices_iff [OF inv] by auto
  have r2: "\<forall>i \<in> set jc. i < length (tiles st) \<and> ptype (tiles st ! i) = Okey"
    using subseq_set [OF jc] joker_indices_iff [OF inv] by auto
  have "idxs = rc @ jc \<and> rc \<noteq> [] \<and>
           (length idxs = 3 \<or> length idxs = 4) \<and> w = num * int (length idxs) \<and>
           sorted_wrt (<) rc \<and> sorted_wrt (<) jc \<and>
           (\<forall>i \<in> set rc. i < length (tiles st) \<and> ptype (tiles st ! i) \<noteq> Okey \<and>
                          number (tiles st ! i) = Some num) \<and>
           (\<forall>i \<in> set jc. i < length (tiles st) \<and> ptype (tiles st ! i) = Okey)"
    using sz eq ne s1 s2 r1 r2 by (intro conjI) simp_all
  then show ?thesis by (intro exI)
qed

lemma run_melds_windowD:
  assumes "(idxs, w) \<in> set (run_melds_window st n2i len start)"
  shows "\<exists>jc. idxs = sort (List.map_filter (\<lambda>n. n2i (Some n)) (map int [start ..< start + len]) @ jc) \<and>
           subseq jc (joker_indices st) \<and>
           w = sum_list (map int [start ..< start + len])"
proof -
  let ?real = "List.map_filter (\<lambda>n. n2i (Some n)) (map int [start ..< start + len])"
  from assms obtain jc where
    jc: "jc \<in> set (combinations (joker_indices st) (len - length ?real))"
    and eq: "idxs = sort (?real @ jc)" "w = sum_list (map int [start ..< start + len])"
    by (auto simp: run_melds_window_def Let_def split: if_splits)
  from combinations_subseq [OF jc] have "subseq jc (joker_indices st)" by simp
  with eq show ?thesis by blast
qed

lemma run_meldsD:
  assumes "m \<in> set (run_melds st)"
  shows "\<exists>c len start. c \<in> set (colors st) \<and> 3 \<le> len \<and> len \<le> 13 \<and> 1 \<le> start \<and>
           start + len \<le> 14 \<and> m \<in> set (run_melds_window st (num_to_idx (tiles st) c) len start)"
proof -
  from assms obtain c where c: "c \<in> set (colors st)" and 1: "m \<in> set (run_melds_color st c)"
    unfolding run_melds_def by (blast dest: in_concat_map)
  from 1 obtain len where len: "len \<in> set [3 ..< 14]"
    and 2: "m \<in> set (concat (map (\<lambda>start. run_melds_window st (num_to_idx (tiles st) c) len start)
                 [1 ..< 14 - len + 1]))"
    unfolding run_melds_color_def map_ident by (blast dest: in_concat_map)
  from 2 obtain start where start: "start \<in> set [1 ..< 14 - len + 1]"
    and 3: "m \<in> set (run_melds_window st (num_to_idx (tiles st) c) len start)"
    by (blast dest: in_concat_map)
  from len have "3 \<le> len \<and> len \<le> 13" by (simp del: upt_rec_numeral)
  moreover from start have "1 \<le> start \<and> start < 14 - len + 1" by (simp del: upt_Suc)
  ultimately have "3 \<le> len \<and> len \<le> 13 \<and> 1 \<le> start \<and> start + len \<le> 14" by arith
  with c 3 show ?thesis by blast
qed

lemma strict_distinct: "sorted_wrt (<) (xs :: nat list) \<Longrightarrow> distinct xs"
  by (simp add: strict_sorted_iff)

lemma distinct_real_idxs:
  assumes "distinct nums"
  shows "distinct (List.map_filter (\<lambda>n. num_to_idx ts c (Some n)) nums)"
proof -
  have "inj_on (the \<circ> (\<lambda>n. num_to_idx ts c (Some n)))
          (set (filter (\<lambda>n. num_to_idx ts c (Some n) \<noteq> None) nums))"
  proof (rule inj_onI)
    fix a b
    assume a: "a \<in> set (filter (\<lambda>n. num_to_idx ts c (Some n) \<noteq> None) nums)"
      and b: "b \<in> set (filter (\<lambda>n. num_to_idx ts c (Some n) \<noteq> None) nums)"
      and eq: "(the \<circ> (\<lambda>n. num_to_idx ts c (Some n))) a = (the \<circ> (\<lambda>n. num_to_idx ts c (Some n))) b"
    from a obtain i where i: "num_to_idx ts c (Some a) = Some i" by auto
    from b obtain j where j: "num_to_idx ts c (Some b) = Some j" by auto
    from eq i j have "i = j" by simp
    with i j have "number (ts ! i) = Some a" "number (ts ! i) = Some b"
      by (simp_all add: num_to_idx_Some_iff)
    then show "a = b" by simp
  qed
  with assms show ?thesis
    by (simp add: List.map_filter_def distinct_map)
qed

lemma real_idxs_real:
  assumes "i \<in> set (List.map_filter (\<lambda>n. num_to_idx ts c (Some n)) nums)"
  shows "\<exists>n \<in> set nums. num_to_idx ts c (Some n) = Some i"
  using assms by (auto simp: List.map_filter_def)

lemma run_melds_shape:
  assumes inv: "solver_inv st" and m: "(idxs, w) \<in> set (run_melds st)"
  shows "sorted_wrt (<) idxs \<and> (\<forall>i \<in> set idxs. i < length (tiles st))"
proof -
  from run_meldsD [OF m] obtain c len start where
    win: "(idxs, w) \<in> set (run_melds_window st (num_to_idx (tiles st) c) len start)"
    by blast
  let ?real = "List.map_filter (\<lambda>n. num_to_idx (tiles st) c (Some n)) (map int [start ..< start + len])"
  from run_melds_windowD [OF win] obtain jc where
    eq: "idxs = sort (?real @ jc)" and jc: "subseq jc (joker_indices st)"
    by blast
  have real: "i < length (tiles st) \<and> ptype (tiles st ! i) \<noteq> Okey" if "i \<in> set ?real" for i
    using real_idxs_real [OF that] by (auto simp: num_to_idx_Some_iff)
  have jok: "i < length (tiles st) \<and> ptype (tiles st ! i) = Okey" if "i \<in> set jc" for i
    using that subseq_set [OF jc] joker_indices_iff [OF inv] by auto
  have d1: "distinct ?real"
    by (rule distinct_real_idxs) (simp add: distinct_map)
  have d2: "distinct jc"
    using jc joker_indices_strict [OF inv] by (intro strict_distinct) (rule subseq_sorted_wrt)
  have "distinct (?real @ jc)"
    using d1 d2 real jok by auto
  then have "sorted_wrt (<) idxs"
    unfolding eq by (simp add: strict_sorted_iff)
  moreover have "\<forall>i \<in> set idxs. i < length (tiles st)"
    unfolding eq using real jok by auto
  ultimately show ?thesis by simp
qed

lemma enumerate_melds_range:
  assumes inv: "solver_inv st" and m: "m \<in> set (enumerate_melds st)"
  shows "distinct (fst m) \<and> (\<forall>i \<in> set (fst m). i < length (tiles st))"
proof -
  obtain idxs w where mw: "m = (idxs, w)" by (cases m)
  from m mw consider "(idxs, w) \<in> set (set_melds st)" | "(idxs, w) \<in> set (run_melds st)"
    by (auto simp: enumerate_melds_def)
  then show ?thesis
  proof cases
    case 1
    from set_melds_shape [OF inv 1] obtain num rc jc where
      eq: "idxs = rc @ jc" and s: "sorted_wrt (<) rc" "sorted_wrt (<) jc"
      and rc: "\<forall>i \<in> set rc. i < length (tiles st) \<and> ptype (tiles st ! i) \<noteq> Okey \<and>
                          number (tiles st ! i) = Some num"
      and jc: "\<forall>i \<in> set jc. i < length (tiles st) \<and> ptype (tiles st ! i) = Okey"
      by blast
    from s have "distinct rc" "distinct jc" by (simp_all add: strict_distinct)
    with rc jc have "distinct (rc @ jc)" by auto
    with rc jc show ?thesis unfolding mw eq by auto
  next
    case 2
    from run_melds_shape [OF inv 2] show ?thesis
      unfolding mw by (simp add: strict_distinct)
  qed
qed

section \<open>Optimality and disjointness of the returned melds\<close>

lemma weight_sum_extract: "weight_sum (extract_solution st ms) = weight_sum ms"
  by (simp add: weight_sum_def extract_solution_def comp_def)

lemma selected_subset: "set (selected cands v) \<subseteq> set cands"
  using selected_subseq [of cands v] by (rule subseq_set)

lemma length_filter_nth:
  "length (filter (\<lambda>i. P (xs ! i)) [0 ..< length xs]) = length (filter P xs)"
proof -
  have "filter P xs = filter P (map ((!) xs) [0 ..< length xs])"
    by (simp add: map_nth)
  also have "\<dots> = map ((!) xs) (filter (\<lambda>i. P (xs ! i)) [0 ..< length xs])"
    by (simp add: filter_map comp_def)
  finally show ?thesis by simp
qed

lemma length_joker_indices: "solver_inv st \<Longrightarrow> length (joker_indices st) = joker_count st"
  using length_filter_nth [of "\<lambda>t. ptype t = Okey" "tiles st"]
  by (simp add: solver_inv_def joker_count_def)

lemma packing_distinct_concat:
  "packing ms \<Longrightarrow> \<forall>m \<in> set ms. distinct (fst m) \<Longrightarrow> distinct (concat (map fst ms))"
  by (induction ms) (auto simp: packing_def index_disjoint_def)

lemma jokers_used_concat:
  "jokers_used st ms = length [i \<leftarrow> concat (map fst ms). ptype (tiles st ! i) = Okey]"
  by (induction ms) (simp_all add: jokers_used_def)

lemma joker_budget:
  assumes inv: "solver_inv st" and pack: "packing ms"
    and ok: "\<forall>m \<in> set ms. distinct (fst m) \<and> (\<forall>i \<in> set (fst m). i < length (tiles st))"
  shows "jokers_used st ms \<le> joker_count st"
proof -
  let ?used = "[i \<leftarrow> concat (map fst ms). ptype (tiles st ! i) = Okey]"
  have "distinct ?used"
    using packing_distinct_concat [OF pack] ok by simp
  then have "length ?used = card (set ?used)"
    by (rule distinct_card [symmetric])
  also have "set ?used \<subseteq> set (joker_indices st)"
    using ok joker_indices_iff [OF inv] by auto
  then have "card (set ?used) \<le> card (set (joker_indices st))"
    by (intro card_mono) simp_all
  also have "\<dots> \<le> length (joker_indices st)" by (rule card_length)
  finally show ?thesis
    by (simp add: jokers_used_concat length_joker_indices [OF inv])
qed

text \<open>
  C1. For every hand: when the optimizer returns an exact optimal assignment of the 0/1
  program, solve returns a result, and its total score (the sum of the weights of the
  chosen melds) is the best total weight over all collections of pairwise index-disjoint
  candidates enumerated from that hand.
\<close>

theorem solve_total_is_best_packing:
  assumes st: "st = OkeyILPSolver_init ps oc on"
    and ret: "opt (enumerate_melds st) (length (tiles st)) = Inr v"
    and exact: "optimal (enumerate_melds st) (length (tiles st)) v"
  shows "\<exists>sol. solve opt st = Inr sol \<and>
           weight_sum sol = best_packing (enumerate_melds st)"
proof -
  have inv: "solver_inv st" unfolding st by (rule solver_inv_init)
  have range: "\<forall>m \<in> set (enumerate_melds st). \<forall>t \<in> set (fst m). t < length (tiles st)"
    using enumerate_melds_range [OF inv] by blast
  have "solve opt st = Inr (extract_solution st (selected (enumerate_melds st) v))"
    using ret by (simp add: solve_def Let_def)
  moreover have "weight_sum (extract_solution st (selected (enumerate_melds st) v)) =
                 best_packing (enumerate_melds st)"
    unfolding weight_sum_extract by (rule optimal_best_packing [OF exact range])
  ultimately show ?thesis by blast
qed

text \<open>
  C4. For every returned result (the optimizer having returned an assignment that meets
  the constraints of the program): the index lists of any two distinct melds of the
  result are disjoint, and the jokers used across all returned melds are at most the
  joker tiles of the hand.
\<close>

theorem returned_melds_disjoint:
  assumes st: "st = OkeyILPSolver_init ps oc on"
    and ret: "opt (enumerate_melds st) (length (tiles st)) = Inr v"
    and feas: "feasible (enumerate_melds st) (length (tiles st)) v"
  shows "solve opt st = Inr (extract_solution st (selected (enumerate_melds st) v)) \<and>
         packing (selected (enumerate_melds st) v) \<and>
         jokers_used st (selected (enumerate_melds st) v) \<le> joker_count st"
proof -
  have inv: "solver_inv st" unfolding st by (rule solver_inv_init)
  have ok: "\<forall>m \<in> set (enumerate_melds st).
              distinct (fst m) \<and> (\<forall>t \<in> set (fst m). t < length (tiles st))"
    using enumerate_melds_range [OF inv] by blast
  then have range: "\<forall>m \<in> set (enumerate_melds st). \<forall>t \<in> set (fst m). t < length (tiles st)"
    by blast
  have pack: "packing (selected (enumerate_melds st) v)"
    by (rule feasible_packing [OF feas range])
  have "\<forall>m \<in> set (selected (enumerate_melds st) v).
          distinct (fst m) \<and> (\<forall>t \<in> set (fst m). t < length (tiles st))"
    using ok selected_subset [of "enumerate_melds st" v] by blast
  from joker_budget [OF inv pack this]
  have "jokers_used st (selected (enumerate_melds st) v) \<le> joker_count st" .
  moreover have "solve opt st = Inr (extract_solution st (selected (enumerate_melds st) v))"
    using ret by (simp add: solve_def Let_def)
  ultimately show ?thesis using pack by simp
qed

lemma scenario_B_melds:
  "enumerate_melds (OkeyILPSolver_init [(''red'', Some 7), (''red'', Some 8), (''okey'', None)]
      (Some ''red'') (Some 9)) = [([0, 1, 2], 21), ([0, 1, 2], 24)]"
  by code_simp

lemma scenario_B_length:
  "length (tiles (OkeyILPSolver_init [(''red'', Some 7), (''red'', Some 8), (''okey'', None)]
      (Some ''red'') (Some 9))) = 3"
  by (simp add: tiles_init)

lemma scenario_B_feasible:
  "feasible [([0, 1, 2], 21), ([0, 1, 2], 24)] 3 v \<longleftrightarrow>
     (v 0 = 0 \<or> v 0 = 1) \<and> (v 1 = 0 \<or> v 1 = 1) \<and> v 0 + v 1 \<le> 1"
  by (auto simp: feasible_def tile_once_def less_Suc_eq numeral_2_eq_2 numeral_3_eq_3)

lemma scenario_B_optimal:
  "optimal [([0, 1, 2], 21), ([0, 1, 2], 24)] 3 (\<lambda>i. if i = 1 then 1 else 0)"
  unfolding optimal_def scenario_B_feasible
  by (auto simp: objective_def)

theorem solve_total_is_best_packing_witness:
  "\<exists>sol. solve (\<lambda>cands n. Inr (\<lambda>i. if i = 1 then 1 else 0))
            (OkeyILPSolver_init [(''red'', Some 7), (''red'', Some 8), (''okey'', None)]
               (Some ''red'') (Some 9)) = Inr sol \<and>
         weight_sum sol = best_packing (enumerate_melds
            (OkeyILPSolver_init [(''red'', Some 7), (''red'', Some 8), (''okey'', None)]
               (Some ''red'') (Some 9)))"
proof (rule solve_total_is_best_packing
    [where ps = "[(''red'', Some 7), (''red'', Some 8), (''okey'', None)]"
       and oc = "Some ''red''" and on = "Some 9"
       and v = "\<lambda>i. if i = 1 then 1 else 0"])
  show "optimal (enumerate_melds
            (OkeyILPSolver_init [(''red'', Some 7), (''red'', Some 8), (''okey'', None)]
               (Some ''red'') (Some 9)))
          (length (tiles (OkeyILPSolver_init [(''red'', Some 7), (''red'', Some 8), (''okey'', None)]
               (Some ''red'') (Some 9))))
          (\<lambda>i. if i = 1 then 1 else 0)"
    by (simp only: scenario_B_melds scenario_B_length scenario_B_optimal)
qed (rule refl)+

theorem returned_melds_disjoint_witness:
  "packing (selected [([0, 1, 2], 21), ([0, 1, 2], 24)] (\<lambda>i. if i = 1 then 1 else 0)) \<and>
   jokers_used (OkeyILPSolver_init [(''red'', Some 7), (''red'', Some 8), (''okey'', None)]
               (Some ''red'') (Some 9))
     (selected [([0, 1, 2], 21), ([0, 1, 2], 24)] (\<lambda>i. if i = 1 then 1 else 0)) \<le> 1"
proof -
  have "feasible (enumerate_melds
            (OkeyILPSolver_init [(''red'', Some 7), (''red'', Some 8), (''okey'', None)]
               (Some ''red'') (Some 9)))
          (length (tiles (OkeyILPSolver_init [(''red'', Some 7), (''red'', Some 8), (''okey'', None)]
               (Some ''red'') (Some 9))))
          (\<lambda>i. if i = 1 then 1 else 0)"
    using scenario_B_optimal
    by (simp only: scenario_B_melds scenario_B_length optimal_def)
  from returned_melds_disjoint
    [where ps = "[(''red'', Some 7), (''red'', Some 8), (''okey'', None)]"
       and oc = "Some ''red''" and on = "Some 9"
       and v = "\<lambda>i. if i = 1 then 1 else 0"
       and opt = "\<lambda>cands n. Inr (\<lambda>i. if i = 1 then 1 else 0)", OF refl refl this]
  show ?thesis
    by (simp add: scenario_B_melds joker_count_def tiles_init Piece_init_def)
qed

section \<open>Runs and duplicate tiles\<close>

text \<open>
  C10. When two non-joker tiles of a hand have the same colour and the same rank, the one
  with the lower index appears in no Run candidate (only the one with the largest index
  can); it stays in the pool of real tiles from which the Set candidates of that rank are
  drawn.
\<close>

theorem duplicates_last_index_in_runs:
  assumes st: "st = OkeyILPSolver_init ps oc on"
    and ij: "i < j" "j < length (tiles st)"
    and real: "ptype (tiles st ! i) \<noteq> Okey" "ptype (tiles st ! j) \<noteq> Okey"
    and same: "color (tiles st ! i) = color (tiles st ! j)"
              "number (tiles st ! i) = number (tiles st ! j)"
  shows "(\<forall>m \<in> set (run_melds st). i \<notin> set (fst m)) \<and>
         i \<in> set [k \<leftarrow> non_joker_indices st. number (tiles st ! k) = number (tiles st ! i)]"
proof -
  have inv: "solver_inv st" unfolding st by (rule solver_inv_init)
  have "i \<notin> set (fst m)" if m: "m \<in> set (run_melds st)" for m
  proof
    assume i: "i \<in> set (fst m)"
    from run_meldsD [OF m] obtain c len start where
      win: "m \<in> set (run_melds_window st (num_to_idx (tiles st) c) len start)"
      by blast
    let ?real = "List.map_filter (\<lambda>n. num_to_idx (tiles st) c (Some n))
                   (map int [start ..< start + len])"
    from win have "(fst m, snd m) \<in> set (run_melds_window st (num_to_idx (tiles st) c) len start)"
      by simp
    from run_melds_windowD [OF this] obtain jc where
      eq: "fst m = sort (?real @ jc)" and jc: "subseq jc (joker_indices st)"
      by blast
    from i eq consider "i \<in> set ?real" | "i \<in> set jc" by auto
    then show False
    proof cases
      case 1
      from real_idxs_real [OF 1] obtain n where
        "num_to_idx (tiles st) c (Some n) = Some i" by blast
      then have "color (tiles st ! i) = c" "number (tiles st ! i) = Some n"
        and last: "\<forall>k. i < k \<and> k < length (tiles st) \<longrightarrow>
           \<not> (ptype (tiles st ! k) \<noteq> Okey \<and> color (tiles st ! k) = c \<and>
              number (tiles st ! k) = Some n)"
        unfolding num_to_idx_Some_iff by blast+
      with same real(2) have "ptype (tiles st ! j) \<noteq> Okey \<and> color (tiles st ! j) = c \<and>
              number (tiles st ! j) = Some n" by simp
      with last ij show False by blast
    next
      case 2
      with subseq_set [OF jc] joker_indices_iff [OF inv] real(1) show False by auto
    qed
  qed
  moreover have "i \<in> set [k \<leftarrow> non_joker_indices st. number (tiles st ! k) = number (tiles st ! i)]"
    using ij real(1) non_joker_indices_iff [OF inv] by simp
  ultimately show ?thesis by blast
qed

theorem duplicates_last_index_in_runs_witness:
  "run_melds (OkeyILPSolver_init
      [(''red'', Some 5), (''red'', Some 5), (''red'', Some 6), (''red'', Some 7), (''blue'', Some 5),
       (''black'', Some 5)]
      None None) = [([1, 2, 3], 18)] \<and>
   ([0, 4, 5], 15) \<in> set (set_melds (OkeyILPSolver_init
      [(''red'', Some 5), (''red'', Some 5), (''red'', Some 6), (''red'', Some 7), (''blue'', Some 5),
       (''black'', Some 5)]
      None None))"
proof -
  have "(\<forall>m \<in> set (run_melds (OkeyILPSolver_init
      [(''red'', Some 5), (''red'', Some 5), (''red'', Some 6), (''red'', Some 7), (''blue'', Some 5),
       (''black'', Some 5)]
      None None)). 0 \<notin> set (fst m))"
    using duplicates_last_index_in_runs
      [where ps = "[(''red'', Some 5), (''red'', Some 5), (''red'', Some 6), (''red'', Some 7),
                    (''blue'', Some 5), (''black'', Some 5)]"
         and oc = None and on = None and i = 0 and j = 1, OF refl]
    by (simp add: tiles_init Piece_init_def)
  moreover have "run_melds (OkeyILPSolver_init
      [(''red'', Some 5), (''red'', Some 5), (''red'', Some 6), (''red'', Some 7), (''blue'', Some 5),
       (''black'', Some 5)]
      None None) = [([1, 2, 3], 18)]"
    by code_simp
  moreover have "([0, 4, 5], 15) \<in> set (set_melds (OkeyILPSolver_init
      [(''red'', Some 5), (''red'', Some 5), (''red'', Some 6), (''red'', Some 7), (''blue'', Some 5),
       (''black'', Some 5)]
      None None))"
    by code_simp
  ultimately show ?thesis by simp
qed

section \<open>Run windows\<close>










section \<open>The handler's response\<close>

lemma process_melds_fold:
  "fold (\<lambda>(piece_objects, w) (processed, total).
             (processed @ [\<lparr>meld_pieces = map piece_str piece_objects, meld_value = w\<rparr>],
              total + w)) sol (acc, tot)
   = (acc @ map (\<lambda>(ps, w). \<lparr>meld_pieces = map piece_str ps, meld_value = w\<rparr>) sol,
      tot + weight_sum sol)"
  by (induction sol arbitrary: acc tot) (auto simp: weight_sum_def)

lemma process_melds_eq:
  "process_melds sol =
     (map (\<lambda>(ps, w). \<lparr>meld_pieces = map piece_str ps, meld_value = w\<rparr>) sol, weight_sum sol)"
  by (simp add: process_melds_def process_melds_fold)

lemma solve_okey_hand_Inr:
  assumes "opt (enumerate_melds (OkeyILPSolver_init (pieces req) (Some (okey_color req))
                  (Some (okey_number req)))) (length (pieces req)) = Inr v"
  shows "solve_okey_hand opt req =
     (let st = OkeyILPSolver_init (pieces req) (Some (okey_color req)) (Some (okey_number req));
          sol = extract_solution st (selected (enumerate_melds st) v)
      in Inr \<lparr>melds = map (\<lambda>(ps, w). \<lparr>meld_pieces = map piece_str ps, meld_value = w\<rparr>) sol,
              total_score = weight_sum sol,
              can_open = (weight_sum sol \<ge> 101),
              number_of_triples = weight_sum sol div 3,
              number_of_sides = weight_sum sol mod 3\<rparr>)"
  using assms
  by (simp add: solve_okey_hand_def solve_def Let_def process_melds_eq tiles_init)

lemma solve_okey_hand_Inl:
  assumes "opt (enumerate_melds (OkeyILPSolver_init (pieces req) (Some (okey_color req))
                  (Some (okey_number req)))) (length (pieces req)) = Inl e"
  shows "solve_okey_hand opt req = Inl (HTTPException 500 e)"
  using assms
  by (simp add: solve_okey_hand_def solve_def Let_def tiles_init)

text \<open>
  C7. For every hand from which no candidate is enumerated, solve succeeds once the
  optimizer has returned from the empty program: the returned meld list is empty, and
  the handler answers with no meld and total score 0.
\<close>

theorem no_meld_hand_succeeds:
  assumes none: "enumerate_melds (OkeyILPSolver_init ps oc on) = []"
    and ret: "opt [] (length ps) = Inr v"
  shows "solve opt (OkeyILPSolver_init ps oc on) = Inr [] \<and>
         (\<forall>c r. oc = Some c \<and> on = Some r \<longrightarrow>
            solve_okey_hand opt \<lparr>pieces = ps, okey_color = c, okey_number = r\<rparr> =
              Inr \<lparr>melds = [], total_score = 0, can_open = False,
                   number_of_triples = 0, number_of_sides = 0\<rparr>)"
proof -
  have s: "solve opt (OkeyILPSolver_init ps oc on) = Inr []"
    using none ret
    by (simp add: solve_def Let_def tiles_init selected_def extract_solution_def)
  then show ?thesis
    by (auto simp: solve_okey_hand_def Let_def process_melds_def)
qed

theorem no_meld_hand_succeeds_witness:
  "solve (returning (pick []))
     (OkeyILPSolver_init [(''red'', Some 1), (''blue'', Some 9), (''black'', Some 3)]
        (Some ''red'') (Some 5)) = Inr [] \<and>
   solve_okey_hand (returning (pick []))
     \<lparr>pieces = [(''red'', Some 1), (''blue'', Some 9), (''black'', Some 3)],
      okey_color = ''red'', okey_number = 5\<rparr> =
     Inr \<lparr>melds = [], total_score = 0, can_open = False,
          number_of_triples = 0, number_of_sides = 0\<rparr>"
proof -
  have none: "enumerate_melds
     (OkeyILPSolver_init [(''red'', Some 1), (''blue'', Some 9), (''black'', Some 3)]
        (Some ''red'') (Some 5)) = []"
    by code_simp
  have ret: "returning (pick []) []
      (length [(''red'', Some (1::int)), (''blue'', Some 9), (''black'', Some 3)]) = Inr (pick [])"
    by (simp add: returning_def)
  from no_meld_hand_succeeds [where opt = "returning (pick [])" and v = "pick []", OF none ret]
  show ?thesis by simp
qed

text \<open>
  C8. In the rendered response the token lists of the melds are, tile by tile, the
  display tokens of the tiles of the returned melds: a Joker is the literal JOKER whatever
  its resolved colour and rank, every other tile, a FakeJoker included, is its resolved
  colour, a space and its resolved rank.
\<close>

theorem rendered_tokens:
  assumes st: "st = OkeyILPSolver_init (pieces req) (Some (okey_color req))
                      (Some (okey_number req))"
    and ret: "opt (enumerate_melds st) (length (pieces req)) = Inr v"
  shows "\<exists>resp. solve_okey_hand opt req = Inr resp \<and>
           map meld_pieces (melds resp) =
             map (\<lambda>m. map (display_token req) (fst m)) (selected (enumerate_melds st) v)"
proof -
  have inv: "solver_inv st" unfolding st by (rule solver_inv_init)
  have tok: "piece_str (tiles st ! i) = display_token req i" if "i < length (pieces req)" for i
    using that unfolding st
    by (simp add: tiles_init Piece_init_def piece_str_def display_token_def Let_def
        fmt_color_def fmt_number_def)
  have len: "length (tiles st) = length (pieces req)"
    unfolding st by (simp add: tiles_init)
  have "map piece_str (map (\<lambda>idx. tiles st ! idx) (fst m)) = map (display_token req) (fst m)"
    if "m \<in> set (selected (enumerate_melds st) v)" for m
  proof -
    from that selected_subset have "m \<in> set (enumerate_melds st)" by blast
    from enumerate_melds_range [OF inv this] len
    have "\<forall>i \<in> set (fst m). i < length (pieces req)" by simp
    then show ?thesis using tok by simp
  qed
  then have "map (\<lambda>m. map piece_str (map (\<lambda>idx. tiles st ! idx) (fst m)))
               (selected (enumerate_melds st) v)
             = map (\<lambda>m. map (display_token req) (fst m)) (selected (enumerate_melds st) v)"
    by (intro map_cong refl)
  then show ?thesis
    using solve_okey_hand_Inr [of opt req v] ret
    by (simp add: st Let_def extract_solution_def comp_def case_prod_beta)
qed

theorem rendered_tokens_witness:
  "\<exists>resp. solve_okey_hand (returning (pick [0]))
      \<lparr>pieces = [(''fake_okey'', None), (''red'', Some 2), (''okey'', None)],
       okey_color = ''red'', okey_number = 13\<rparr> = Inr resp \<and>
     map meld_pieces (melds resp) = [[''red 1'', ''red 2'', ''JOKER'']]"
proof -
  have cands: "enumerate_melds (OkeyILPSolver_init
      (pieces \<lparr>pieces = [(''fake_okey'', None), (''red'', Some 2), (''okey'', None)],
       okey_color = ''red'', okey_number = 13\<rparr>)
      (Some (okey_color \<lparr>pieces = [(''fake_okey'', None), (''red'', Some 2), (''okey'', None)],
       okey_color = ''red'', okey_number = 13\<rparr>))
      (Some (okey_number \<lparr>pieces = [(''fake_okey'', None), (''red'', Some 2), (''okey'', None)],
       okey_color = ''red'', okey_number = 13\<rparr>))) = [([0, 1, 2], 6)]"
    by code_simp
  have toks: "map (\<lambda>m. map (display_token
       \<lparr>pieces = [(''fake_okey'', None), (''red'', Some 2), (''okey'', None)],
        okey_color = ''red'', okey_number = 13\<rparr>) (fst m)) [([0, 1, 2], 6 :: int)]
      = [[''red 1'', ''red 2'', ''JOKER'']]"
    by code_simp
  have sel: "selected [([0, 1, 2], 6)] (pick [0]) = [([0, 1, 2], 6)]"
    by code_simp
  from rendered_tokens [where opt = "returning (pick [0])" and v = "pick [0]"
      and req = "\<lparr>pieces = [(''fake_okey'', None), (''red'', Some 2), (''okey'', None)],
       okey_color = ''red'', okey_number = 13\<rparr>", OF refl]
  show ?thesis
    unfolding cands sel toks by (simp add: returning_def)
qed

lemma set_melds_rank:
  assumes inv: "solver_inv st" and m: "(idxs, w) \<in> set (set_melds st)" and i: "i \<in> set idxs"
  shows "ptype (tiles st ! i) = Okey \<or>
         (\<exists>n. number (tiles st ! i) = Some n \<and> 1 \<le> n \<and> n \<le> 13)"
proof -
  from m obtain num where num: "num \<in> set [1..13]"
    and mf: "(idxs, w) \<in> set (set_melds_for st num)"
    unfolding set_melds_def by (blast dest: in_concat_map)
  from set_melds_forD [OF mf] obtain sz rc jc where
    eq: "idxs = rc @ jc"
    and rc: "subseq rc [k \<leftarrow> non_joker_indices st. number (tiles st ! k) = Some num]"
    and jc: "subseq jc (joker_indices st)"
    by blast
  from i eq consider "i \<in> set rc" | "i \<in> set jc" by auto
  then show ?thesis
  proof cases
    case 1
    with subseq_set [OF rc] have "number (tiles st ! i) = Some num" by auto
    moreover from num have "1 \<le> num \<and> num \<le> 13" by (simp del: upto.simps)
    ultimately show ?thesis by blast
  next
    case 2
    with subseq_set [OF jc] joker_indices_iff [OF inv] show ?thesis by auto
  qed
qed

lemma run_melds_rank:
  assumes inv: "solver_inv st" and m: "(idxs, w) \<in> set (run_melds st)" and i: "i \<in> set idxs"
  shows "ptype (tiles st ! i) = Okey \<or>
         (\<exists>n. number (tiles st ! i) = Some n \<and> 1 \<le> n \<and> n \<le> 13)"
proof -
  from run_meldsD [OF m] obtain c len start where
    bounds: "1 \<le> start" "start + len \<le> 14"
    and win: "(idxs, w) \<in> set (run_melds_window st (num_to_idx (tiles st) c) len start)"
    by blast
  let ?real = "List.map_filter (\<lambda>n. num_to_idx (tiles st) c (Some n))
                 (map int [start ..< start + len])"
  from run_melds_windowD [OF win] obtain jc where
    eq: "idxs = sort (?real @ jc)" and jc: "subseq jc (joker_indices st)"
    by blast
  from i eq consider "i \<in> set ?real" | "i \<in> set jc" by auto
  then show ?thesis
  proof cases
    case 1
    from real_idxs_real [OF 1] obtain n where
      n: "n \<in> set (map int [start ..< start + len])"
      and look: "num_to_idx (tiles st) c (Some n) = Some i"
      by blast
    from look have "number (tiles st ! i) = Some n"
      by (simp add: num_to_idx_Some_iff)
    moreover from n bounds have "1 \<le> n \<and> n \<le> 13" by auto
    ultimately show ?thesis by blast
  next
    case 2
    with subseq_set [OF jc] joker_indices_iff [OF inv] show ?thesis by auto
  qed
qed

lemma enumerate_melds_rank:
  assumes inv: "solver_inv st" and m: "m \<in> set (enumerate_melds st)" and i: "i \<in> set (fst m)"
  shows "ptype (tiles st ! i) = Okey \<or>
         (\<exists>n. number (tiles st ! i) = Some n \<and> 1 \<le> n \<and> n \<le> 13)"
proof -
  from m consider "(fst m, snd m) \<in> set (set_melds st)" | "(fst m, snd m) \<in> set (run_melds st)"
    by (auto simp: enumerate_melds_def)
  then show ?thesis
    using set_melds_rank [OF inv _ i] run_melds_rank [OF inv _ i] by cases blast+
qed

lemma post_solve_missing:
  "body_okey_color body = None \<or> body_okey_number body = None \<Longrightarrow>
   post_solve opt body = Inl RequestValidationError"
  by (auto simp: post_solve_def parse_body_def split: option.splits)

lemma post_solve_present:
  "body_okey_color body = Some c \<Longrightarrow> body_okey_number body = Some r \<Longrightarrow>
   post_solve opt body =
     solve_okey_hand opt \<lparr>pieces = body_pieces body, okey_color = c, okey_number = r\<rparr>"
  by (simp add: post_solve_def parse_body_def)

lemma solve_okey_hand_cases:
  "(\<exists>e. opt (enumerate_melds (OkeyILPSolver_init (pieces req) (Some (okey_color req))
                  (Some (okey_number req)))) (length (pieces req)) = Inl e \<and>
        solve_okey_hand opt req = Inl (HTTPException 500 e)) \<or>
   (\<exists>v resp. opt (enumerate_melds (OkeyILPSolver_init (pieces req) (Some (okey_color req))
                  (Some (okey_number req)))) (length (pieces req)) = Inr v \<and>
        solve_okey_hand opt req = Inr resp)"
proof (cases "opt (enumerate_melds (OkeyILPSolver_init (pieces req) (Some (okey_color req))
                  (Some (okey_number req)))) (length (pieces req))")
  case (Inl e)
  with solve_okey_hand_Inl [of opt req e] show ?thesis by blast
next
  case (Inr v)
  with solve_okey_hand_Inr [of opt req v] show ?thesis by (simp add: Let_def)
qed

text \<open>
  C3, as amended. A request without indicator (\<open>okey_color\<close> or \<open>okey_number\<close> absent),
  with jokers or without, is answered with a validation failure of status 422 whatever
  the optimizer would do: no enumeration or solving takes place. The rank range and the
  colour names are not validated: with the indicator present every hand is enumerated and
  handed to the optimizer, the request fails only when the optimizer raises (status 500)
  and is answered otherwise, and a non-joker tile whose rank is outside 1..13 is in no
  candidate. A failure has status 422 exactly when the indicator is missing and status 500
  otherwise, so the caller can tell the two kinds apart.
\<close>

theorem request_failures:
  "(body_okey_color body = None \<or> body_okey_number body = None \<longrightarrow>
      post_solve opt body = Inl RequestValidationError) \<and>
   (body_okey_color body = Some c \<and> body_okey_number body = Some r \<longrightarrow>
      (case opt (enumerate_melds (OkeyILPSolver_init (body_pieces body) (Some c) (Some r)))
              (length (body_pieces body)) of
         Inl e \<Rightarrow> post_solve opt body = Inl (HTTPException 500 e)
       | Inr v \<Rightarrow> \<exists>resp. post_solve opt body = Inr resp) \<and>
      (\<forall>m \<in> set (enumerate_melds (OkeyILPSolver_init (body_pieces body) (Some c) (Some r))).
         \<forall>i \<in> set (fst m).
           ptype (tiles (OkeyILPSolver_init (body_pieces body) (Some c) (Some r)) ! i) = Okey \<or>
           (\<exists>n. number (tiles (OkeyILPSolver_init (body_pieces body) (Some c) (Some r)) ! i)
                  = Some n \<and> 1 \<le> n \<and> n \<le> 13))) \<and>
   (\<forall>err. post_solve opt body = Inl err \<longrightarrow>
      (status_code err = 422 \<longleftrightarrow>
         body_okey_color body = None \<or> body_okey_number body = None) \<and>
      (status_code err = 422 \<or> status_code err = 500))"
proof (intro conjI impI allI)
  assume "body_okey_color body = None \<or> body_okey_number body = None"
  then show "post_solve opt body = Inl RequestValidationError"
    by (rule post_solve_missing)
next
  assume ind: "body_okey_color body = Some c \<and> body_okey_number body = Some r"
  let ?req = "\<lparr>pieces = body_pieces body, okey_color = c, okey_number = r\<rparr>"
  have ps: "post_solve opt body = solve_okey_hand opt ?req"
    using ind by (simp add: post_solve_present)
  show "case opt (enumerate_melds (OkeyILPSolver_init (body_pieces body) (Some c) (Some r)))
              (length (body_pieces body)) of
         Inl e \<Rightarrow> post_solve opt body = Inl (HTTPException 500 e)
       | Inr v \<Rightarrow> \<exists>resp. post_solve opt body = Inr resp"
    using solve_okey_hand_cases [of opt ?req] unfolding ps
    by (auto split: sum.splits)
next
  assume ind: "body_okey_color body = Some c \<and> body_okey_number body = Some r"
  show "\<forall>m \<in> set (enumerate_melds (OkeyILPSolver_init (body_pieces body) (Some c) (Some r))).
         \<forall>i \<in> set (fst m).
           ptype (tiles (OkeyILPSolver_init (body_pieces body) (Some c) (Some r)) ! i) = Okey \<or>
           (\<exists>n. number (tiles (OkeyILPSolver_init (body_pieces body) (Some c) (Some r)) ! i)
                  = Some n \<and> 1 \<le> n \<and> n \<le> 13)"
    using enumerate_melds_rank [OF solver_inv_init] by blast
next
  fix err
  assume fail: "post_solve opt body = Inl err"
  show "status_code err = 422 \<longleftrightarrow>
          body_okey_color body = None \<or> body_okey_number body = None"
  proof (cases "body_okey_color body = None \<or> body_okey_number body = None")
    case True
    with post_solve_missing [OF True, of opt] fail show ?thesis by simp
  next
    case False
    then obtain c' r' where ind: "body_okey_color body = Some c'" "body_okey_number body = Some r'"
      by auto
    let ?req = "\<lparr>pieces = body_pieces body, okey_color = c', okey_number = r'\<rparr>"
    from solve_okey_hand_cases [of opt ?req] fail post_solve_present [OF ind, of opt]
    obtain e where "err = HTTPException 500 e" by auto
    with False show ?thesis by simp
  qed
next
  fix err
  assume fail: "post_solve opt body = Inl err"
  show "status_code err = 422 \<or> status_code err = 500"
  proof (cases "body_okey_color body = None \<or> body_okey_number body = None")
    case True
    with post_solve_missing [OF True, of opt] fail show ?thesis by simp
  next
    case False
    then obtain c' r' where ind: "body_okey_color body = Some c'" "body_okey_number body = Some r'"
      by auto
    let ?req = "\<lparr>pieces = body_pieces body, okey_color = c', okey_number = r'\<rparr>"
    from solve_okey_hand_cases [of opt ?req] fail post_solve_present [OF ind, of opt]
    obtain e where "err = HTTPException 500 e" by auto
    then show ?thesis by simp
  qed
qed

text \<open>
  C3 fails as stated: a request with the unknown colour purple and with a tile of rank 20
  is not rejected; it is solved, and the purple tiles form a run.
\<close>

theorem rank_and_colour_not_validated_counterexample:
  "post_solve (returning (pick [0]))
     \<lparr>body_pieces = [(''purple'', Some 1), (''purple'', Some 2), (''purple'', Some 3),
                      (''red'', Some 20)],
      body_okey_color = Some ''red'', body_okey_number = Some 1\<rparr>
   = Inr \<lparr>melds = [\<lparr>meld_pieces = [''purple 1'', ''purple 2'', ''purple 3''], meld_value = 6\<rparr>],
          total_score = 6, can_open = False, number_of_triples = 2, number_of_sides = 0\<rparr>"
  by code_simp

theorem request_failures_witness:
  "post_solve (returning (pick []))
     \<lparr>body_pieces = [(''okey'', None), (''red'', Some 5)],
      body_okey_color = None, body_okey_number = None\<rparr> = Inl RequestValidationError \<and>
   post_solve (raising ''cbc failed'')
     \<lparr>body_pieces = [(''purple'', Some 1), (''red'', Some 20)],
      body_okey_color = Some ''red'', body_okey_number = Some 1\<rparr>
     = Inl (HTTPException 500 ''cbc failed'') \<and>
   (\<exists>resp. post_solve (returning (pick []))
     \<lparr>body_pieces = [(''purple'', Some 1), (''red'', Some 20)],
      body_okey_color = Some ''red'', body_okey_number = Some 1\<rparr> = Inr resp)"
proof (intro conjI)
  show "post_solve (returning (pick []))
     \<lparr>body_pieces = [(''okey'', None), (''red'', Some 5)],
      body_okey_color = None, body_okey_number = None\<rparr> = Inl RequestValidationError"
    using request_failures [of "\<lparr>body_pieces = [(''okey'', None), (''red'', Some 5)],
      body_okey_color = None, body_okey_number = None\<rparr>" "returning (pick [])"]
    by simp
  show "post_solve (raising ''cbc failed'')
     \<lparr>body_pieces = [(''purple'', Some 1), (''red'', Some 20)],
      body_okey_color = Some ''red'', body_okey_number = Some 1\<rparr>
     = Inl (HTTPException 500 ''cbc failed'')"
    using request_failures [of "\<lparr>body_pieces = [(''purple'', Some 1), (''red'', Some 20)],
      body_okey_color = Some ''red'', body_okey_number = Some 1\<rparr>" "raising ''cbc failed''"
      "''red''" 1]
    by (simp add: raising_def)
  show "\<exists>resp. post_solve (returning (pick []))
     \<lparr>body_pieces = [(''purple'', Some 1), (''red'', Some 20)],
      body_okey_color = Some ''red'', body_okey_number = Some 1\<rparr> = Inr resp"
    using request_failures [of "\<lparr>body_pieces = [(''purple'', Some 1), (''red'', Some 20)],
      body_okey_color = Some ''red'', body_okey_number = Some 1\<rparr>" "returning (pick [])"
      "''red''" 1]
    by (simp add: returning_def)
qed

text \<open>
  C2 at a hand with two red tiles of rank 5: the only candidate is the Set of the three
  tiles, whose non-joker members are red, red and blue.
\<close>

theorem set_with_repeated_color:
  "enumerate_melds (OkeyILPSolver_init
      [(''red'', Some 5), (''red'', Some 5), (''blue'', Some 5)] (Some ''black'') (Some 1))
     = [([0, 1, 2], 15)] \<and>
   tiles (OkeyILPSolver_init
      [(''red'', Some 5), (''red'', Some 5), (''blue'', Some 5)] (Some ''black'') (Some 1))
     = [\<lparr>color = Some ''red'', number = Some 5, ptype = NormalPiece\<rparr>,
        \<lparr>color = Some ''red'', number = Some 5, ptype = NormalPiece\<rparr>,
        \<lparr>color = Some ''blue'', number = Some 5, ptype = NormalPiece\<rparr>]"
  by code_simp

section \<open>Order of the tiles within a meld\<close>

lemma joker_first_melds:
  "enumerate_melds (OkeyILPSolver_init [(''okey'', None), (''red'', Some 5), (''blue'', Some 5)]
      (Some ''black'') (Some 1)) = [([1, 2, 0], 15)]"
  by code_simp

lemma joker_first_length:
  "length (tiles (OkeyILPSolver_init [(''okey'', None), (''red'', Some 5), (''blue'', Some 5)]
      (Some ''black'') (Some 1))) = 3"
  by (simp add: tiles_init)

lemma joker_first_optimal: "optimal [([1, 2, 0], 15)] 3 (pick [0])"
  by (auto simp: optimal_def feasible_def tile_once_def objective_def pick_def)

lemma joker_first_exact:
  "optimal (enumerate_melds (OkeyILPSolver_init
        [(''okey'', None), (''red'', Some 5), (''blue'', Some 5)] (Some ''black'') (Some 1)))
     (length (tiles (OkeyILPSolver_init
        [(''okey'', None), (''red'', Some 5), (''blue'', Some 5)] (Some ''black'') (Some 1))))
     (pick [0])"
  by (simp only: joker_first_melds joker_first_length joker_first_optimal)

lemma run_melds_index_order:
  "m \<in> set (run_melds (OkeyILPSolver_init ps oc on)) \<Longrightarrow> sorted_wrt (<) (fst m)"
  using run_melds_shape [OF solver_inv_init, of "fst m" "snd m" ps oc on] by simp

text \<open>
  C9 at the hand Joker, red 5, blue 5 (indicator black 1). The only candidate is the Set
  with the index list 1, 2, 0, which the exact optimum selects (\<open>joker_first_exact\<close>);
  the returned meld lists red 5, blue 5 and then the joker, tile 0 of the hand, so the
  hand indices behind its tiles are not increasing. A Run's index list is sorted
  (\<open>run_melds_index_order\<close>); a Set's is not.
\<close>

theorem set_meld_lists_joker_last:
  "tiles (OkeyILPSolver_init
        [(''okey'', None), (''red'', Some 5), (''blue'', Some 5)] (Some ''black'') (Some 1))
     = [\<lparr>color = Some ''black'', number = Some 1, ptype = Okey\<rparr>,
        \<lparr>color = Some ''red'', number = Some 5, ptype = NormalPiece\<rparr>,
        \<lparr>color = Some ''blue'', number = Some 5, ptype = NormalPiece\<rparr>] \<and>
   selected (enumerate_melds (OkeyILPSolver_init
        [(''okey'', None), (''red'', Some 5), (''blue'', Some 5)] (Some ''black'') (Some 1)))
     (pick [0]) = [([1, 2, 0], 15)] \<and>
   solve (returning (pick [0])) (OkeyILPSolver_init
        [(''okey'', None), (''red'', Some 5), (''blue'', Some 5)] (Some ''black'') (Some 1))
     = Inr [([\<lparr>color = Some ''red'', number = Some 5, ptype = NormalPiece\<rparr>,
              \<lparr>color = Some ''blue'', number = Some 5, ptype = NormalPiece\<rparr>,
              \<lparr>color = Some ''black'', number = Some 1, ptype = Okey\<rparr>], 15)] \<and>
   \<not> sorted_wrt (<) [1, 2, 0 :: nat]"
  by code_simp

end
